theory Spec2Isabelle
  imports Main "HOL-Library.Word"
begin

unbundle bit_operations_syntax

section \<open>Machine integers and configuration (dm\_config.h)\<close>

type_synonym u8 = "8 word"
type_synonym u16 = "16 word"
type_synonym u32 = "32 word"
type_synonym s16 = "16 word"

text \<open>Default values of the compile-time knobs of \<^verbatim>\<open>dm_config.h\<close>.\<close>

definition DM_MAX_PAYLOAD :: nat where
  "DM_MAX_PAYLOAD = 128"

definition DM_PROTOCOL_VERSION :: u8 where
  "DM_PROTOCOL_VERSION = 0x01"

definition DM_START_BYTE :: u8 where
  "DM_START_BYTE = 0xAA"

definition DM_HEADER_SIZE :: nat where
  "DM_HEADER_SIZE = 5"

definition DM_CRC_SIZE :: nat where
  "DM_CRC_SIZE = 2"

definition DM_MAX_FRAME_SIZE :: nat where
  "DM_MAX_FRAME_SIZE = DM_HEADER_SIZE + DM_MAX_PAYLOAD + DM_CRC_SIZE"

section \<open>CRC16-CCITT (crc16.c)\<close>

definition CRC16_POLY :: u16 where
  "CRC16_POLY = 0x1021"

text \<open>
  One iteration of the bit loop of \<^verbatim>\<open>crc16_update\<close>: the test of the top bit, the
  shift by one (truncated to 16 bits by the assignment to a \<^verbatim>\<open>uint16_t\<close>) and the
  conditional XOR with the polynomial.
\<close>

definition crc16_shift :: "u16 \<Rightarrow> u16" where
  "crc16_shift crc =
     (if crc AND 0x8000 \<noteq> 0 then push_bit 1 crc XOR CRC16_POLY else push_bit 1 crc)"

text \<open>The \<^verbatim>\<open>for (int i = 0; i < 8; i++)\<close> loop, counted down by the iterations left.\<close>

primrec crc16_loop :: "nat \<Rightarrow> u16 \<Rightarrow> u16" where
  "crc16_loop 0 crc = crc"
| "crc16_loop (Suc n) crc = crc16_loop n (crc16_shift crc)"

definition crc16_update :: "u16 \<Rightarrow> u8 \<Rightarrow> u16" where
  "crc16_update crc byte = crc16_loop 8 (crc XOR push_bit 8 (ucast byte))"

text \<open>
  \<^verbatim>\<open>crc16_ccitt(data, length)\<close>: the list is the \<^verbatim>\<open>length\<close> bytes at \<^verbatim>\<open>data\<close>.
\<close>

definition crc16_ccitt :: "u8 list \<Rightarrow> u16" where
  "crc16_ccitt data = foldl crc16_update 0xFFFF data"

section \<open>Platform interface (dm\_platform.h)\<close>

text \<open>
  The vtable \<^verbatim>\<open>dm_platform_t\<close>: every slot is a function pointer that may be \<^verbatim>\<open>NULL\<close>
  (\<open>None\<close>). The functions act on \<open>'h\<close>, the state of everything behind the vtable
  (the transmit line, the log sink, the clock). \<^verbatim>\<open>write_bytes(data, len)\<close> receives the
  \<^verbatim>\<open>len\<close> bytes at \<^verbatim>\<open>data\<close> as a list.
\<close>

record 'h dm_platform_t =
  write_bytes :: "(u8 list \<Rightarrow> 'h \<Rightarrow> 'h) option"
  millis :: "('h \<Rightarrow> u32 \<times> 'h) option"
  log :: "(string \<Rightarrow> 'h \<Rightarrow> 'h) option"

text \<open>
  The state the code runs in: the platform side \<open>hw\<close>, the file-static event counter of
  \<^verbatim>\<open>dm_packet.c\<close>, and the statics of \<^verbatim>\<open>ui_pages.c\<close> that \<^verbatim>\<open>ui_pages_show\<close> uses.
  \<open>lv_scr_act\<close> stands for the effect of LVGL's \<^verbatim>\<open>lv_scr_load(s_pages[i])\<close>: the index
  of the page object loaded last.
\<close>

record 'h dm_world =
  hw :: 'h
  s_seq_counter :: u8
  s_page_count :: u8
  s_current_page :: u8
  lv_scr_act :: "u8 option"

text \<open>\<^verbatim>\<open>if (plat && plat->log) plat->log(msg);\<close> (\<^verbatim>\<open>DM_DEBUG_LOG\<close> is 1 by default).\<close>

definition plat_log :: "'h dm_platform_t option \<Rightarrow> string \<Rightarrow> 'h dm_world \<Rightarrow> 'h dm_world" where
  "plat_log plat msg w =
     (case plat of
        None \<Rightarrow> w
      | Some pl \<Rightarrow> (case log pl of None \<Rightarrow> w | Some f \<Rightarrow> w\<lparr>hw := f msg (hw w)\<rparr>))"

section \<open>Command and event identifiers (dm\_protocol.h)\<close>

definition CMD_SHOW_PAGE :: u8 where "CMD_SHOW_PAGE = 0x10"
definition EVT_BUTTON_PRESSED :: u8 where "EVT_BUTTON_PRESSED = 0x80"
definition EVT_SLIDER_CHANGED :: u8 where "EVT_SLIDER_CHANGED = 0x81"
definition EVT_PAGE_CHANGED :: u8 where "EVT_PAGE_CHANGED = 0x82"
definition EVT_TOUCH_EVENT :: u8 where "EVT_TOUCH_EVENT = 0x83"
definition EVT_ACK :: u8 where "EVT_ACK = 0xF0"
definition EVT_NACK :: u8 where "EVT_NACK = 0xF1"

section \<open>Frame parser (dm\_parser.h, dm\_parser.c)\<close>

text \<open>
  \<^verbatim>\<open>dm_frame_t\<close>; \<open>payload\<close> is the array \<^verbatim>\<open>uint8_t payload[DM_MAX_PAYLOAD]\<close>, a list
  whose length stays \<open>DM_MAX_PAYLOAD\<close>.
\<close>

record dm_frame_t =
  version :: u8
  command :: u8
  seq_id :: u8
  payload_len :: u8
  payload :: "u8 list"

datatype dm_parse_state_t =
    PARSE_WAIT_START
  | PARSE_VERSION
  | PARSE_COMMAND
  | PARSE_SEQ_ID
  | PARSE_LENGTH
  | PARSE_PAYLOAD
  | PARSE_CRC_HIGH
  | PARSE_CRC_LOW

record dm_parser_t =
  state :: dm_parse_state_t
  frame :: dm_frame_t
  payload_index :: u16
  running_crc :: u16
  crc_high :: u8
  frames_ok :: u32
  frames_crc_err :: u32
  frames_len_err :: u32

definition parser_reset :: "dm_parser_t \<Rightarrow> dm_parser_t" where
  "parser_reset p =
     p\<lparr>state := PARSE_WAIT_START, payload_index := 0, running_crc := 0xFFFF, crc_high := 0\<rparr>"

text \<open>\<^verbatim>\<open>dm_parser_init\<close>: \<^verbatim>\<open>memset\<close> to zero, then \<^verbatim>\<open>parser_reset\<close>.\<close>

definition dm_parser_init :: dm_parser_t where
  "dm_parser_init =
     parser_reset
       \<lparr>state = PARSE_WAIT_START,
        frame = \<lparr>version = 0, command = 0, seq_id = 0, payload_len = 0,
                 payload = replicate DM_MAX_PAYLOAD 0\<rparr>,
        payload_index = 0, running_crc = 0, crc_high = 0,
        frames_ok = 0, frames_crc_err = 0, frames_len_err = 0\<rparr>"

text \<open>
  \<^verbatim>\<open>dm_parser_feed(p, byte, plat)\<close>. The dispatcher \<^verbatim>\<open>dm_protocol_dispatch\<close> is only
  declared in \<^verbatim>\<open>dm_parser.c\<close> and linked in, with weak handlers behind it: here it is the
  parameter \<open>dispatch\<close>, which reads the frame and acts on the world. The statistics are
  \<^verbatim>\<open>uint32_t\<close> and wrap; \<open>payload_index\<close> is a \<^verbatim>\<open>uint16_t\<close>; the comparisons are made
  on the promoted (unsigned) values. The \<^verbatim>\<open>default:\<close> branch of the switch has no case
  here: the datatype has exactly the eight enumerators. A store to
  \<^verbatim>\<open>payload[payload_index]\<close> with an index outside the array would be undefined in C
  and changes nothing in the list.
\<close>

definition dm_parser_feed ::
  "(dm_frame_t \<Rightarrow> 'h dm_platform_t option \<Rightarrow> 'h dm_world \<Rightarrow> 'h dm_world) \<Rightarrow>
   dm_parser_t \<Rightarrow> u8 \<Rightarrow> 'h dm_platform_t option \<Rightarrow> 'h dm_world \<Rightarrow> dm_parser_t \<times> 'h dm_world" where
  "dm_parser_feed dispatch p byte plat w =
     (case state p of
        PARSE_WAIT_START \<Rightarrow>
          (if byte = DM_START_BYTE then ((parser_reset p)\<lparr>state := PARSE_VERSION\<rparr>, w)
           else (p, w))
      | PARSE_VERSION \<Rightarrow>
          (p\<lparr>frame := (frame p)\<lparr>version := byte\<rparr>,
             running_crc := crc16_update (running_crc p) byte,
             state := PARSE_COMMAND\<rparr>, w)
      | PARSE_COMMAND \<Rightarrow>
          (p\<lparr>frame := (frame p)\<lparr>command := byte\<rparr>,
             running_crc := crc16_update (running_crc p) byte,
             state := PARSE_SEQ_ID\<rparr>, w)
      | PARSE_SEQ_ID \<Rightarrow>
          (p\<lparr>frame := (frame p)\<lparr>seq_id := byte\<rparr>,
             running_crc := crc16_update (running_crc p) byte,
             state := PARSE_LENGTH\<rparr>, w)
      | PARSE_LENGTH \<Rightarrow>
          (if unat byte > DM_MAX_PAYLOAD then
             (parser_reset (p\<lparr>frames_len_err := frames_len_err p + 1\<rparr>),
              plat_log plat ''DM: frame length overflow, resyncing'' w)
           else
             (p\<lparr>frame := (frame p)\<lparr>payload_len := byte\<rparr>,
                running_crc := crc16_update (running_crc p) byte,
                payload_index := 0,
                state := (if byte = 0 then PARSE_CRC_HIGH else PARSE_PAYLOAD)\<rparr>, w))
      | PARSE_PAYLOAD \<Rightarrow>
          (let p1 = p\<lparr>frame := (frame p)\<lparr>payload :=
                          (payload (frame p))[unat (payload_index p) := byte]\<rparr>,
                       payload_index := payload_index p + 1,
                       running_crc := crc16_update (running_crc p) byte\<rparr>
           in if unat (payload_index p1) \<ge> unat (payload_len (frame p1))
              then (p1\<lparr>state := PARSE_CRC_HIGH\<rparr>, w)
              else (p1, w))
      | PARSE_CRC_HIGH \<Rightarrow> (p\<lparr>crc_high := byte, state := PARSE_CRC_LOW\<rparr>, w)
      | PARSE_CRC_LOW \<Rightarrow>
          (let received_crc = push_bit 8 (ucast (crc_high p) :: u16) OR ucast byte
           in if received_crc = running_crc p then
                (parser_reset (p\<lparr>frames_ok := frames_ok p + 1\<rparr>), dispatch (frame p) plat w)
              else
                (parser_reset (p\<lparr>frames_crc_err := frames_crc_err p + 1\<rparr>),
                 plat_log plat ''DM: CRC mismatch, frame dropped'' w)))"

text \<open>
  A received byte stream: \<^verbatim>\<open>dm_parser_feed\<close> called once per byte, in order (what the
  receive loop of a board does through \<^verbatim>\<open>dm_receive_byte\<close>).
\<close>

fun dm_parser_feed_all ::
  "(dm_frame_t \<Rightarrow> 'h dm_platform_t option \<Rightarrow> 'h dm_world \<Rightarrow> 'h dm_world) \<Rightarrow>
   dm_parser_t \<Rightarrow> u8 list \<Rightarrow> 'h dm_platform_t option \<Rightarrow> 'h dm_world \<Rightarrow> dm_parser_t \<times> 'h dm_world" where
  "dm_parser_feed_all dispatch p [] plat w = (p, w)"
| "dm_parser_feed_all dispatch p (byte # bytes) plat w =
     (case dm_parser_feed dispatch p byte plat w of
        (p', w') \<Rightarrow> dm_parser_feed_all dispatch p' bytes plat w')"

section \<open>Packet encoder (dm\_packet.c)\<close>

text \<open>
  The buffer \<^verbatim>\<open>frame[0..idx)\<close> that \<^verbatim>\<open>dm_packet_send\<close> builds before it calls
  \<^verbatim>\<open>write_bytes\<close>. \<open>pay\<close> is the pointer argument \<^verbatim>\<open>payload\<close> (\<open>None\<close> for \<^verbatim>\<open>NULL\<close>,
  else the bytes readable at it) and \<open>pay_len\<close> the argument \<^verbatim>\<open>payload_len\<close>, \<open>n\<close> its
  value after the clamp; \<^verbatim>\<open>memcpy\<close> reads \<open>n\<close> bytes at the pointer, which the caller must
  provide (\<open>take\<close> stops at the end of a shorter list, where C reads out of bounds).
\<close>

definition dm_packet_frame :: "u8 \<Rightarrow> u8 \<Rightarrow> u8 list option \<Rightarrow> u8 \<Rightarrow> u8 list" where
  "dm_packet_frame cmd seq pay pay_len =
     (let n = (if unat pay_len > DM_MAX_PAYLOAD then of_nat DM_MAX_PAYLOAD else pay_len);
          header = [DM_START_BYTE, DM_PROTOCOL_VERSION, cmd, seq, n];
          buf = (case pay of
                   None \<Rightarrow> header
                 | Some bytes \<Rightarrow> if n > 0 then header @ take (unat n) bytes else header);
          crc = crc16_ccitt (drop 1 buf)
      in buf @ [ucast (drop_bit 8 crc), ucast (crc AND 0xFF)])"

definition dm_packet_send ::
  "u8 \<Rightarrow> u8 \<Rightarrow> u8 list option \<Rightarrow> u8 \<Rightarrow> 'h dm_platform_t option \<Rightarrow> 'h dm_world \<Rightarrow> 'h dm_world" where
  "dm_packet_send cmd seq pay pay_len plat w =
     (case plat of
        None \<Rightarrow> w
      | Some pl \<Rightarrow>
          (case write_bytes pl of
             None \<Rightarrow> w
           | Some wb \<Rightarrow> w\<lparr>hw := wb (dm_packet_frame cmd seq pay pay_len) (hw w)\<rparr>))"

definition dm_packet_send_ack ::
  "u8 \<Rightarrow> 'h dm_platform_t option \<Rightarrow> u8 list option \<Rightarrow> u8 \<Rightarrow> 'h dm_world \<Rightarrow> 'h dm_world" where
  "dm_packet_send_ack seq plat pay pay_len w =
     dm_packet_send EVT_ACK seq pay pay_len plat w"

definition dm_packet_send_nack :: "u8 \<Rightarrow> 'h dm_platform_t option \<Rightarrow> 'h dm_world \<Rightarrow> 'h dm_world" where
  "dm_packet_send_nack seq plat w = dm_packet_send EVT_NACK seq None 0 plat w"

text \<open>
  The event wrappers pass \<^verbatim>\<open>s_seq_counter++\<close>: the old value is the frame's sequence
  number and the counter is incremented (modulo 256) before \<^verbatim>\<open>dm_packet_send\<close> runs.
  An \<^verbatim>\<open>int16_t\<close> argument is promoted to \<^verbatim>\<open>int\<close>, shifted arithmetically and masked.
\<close>

definition hi_byte :: "s16 \<Rightarrow> u8" where
  "hi_byte v = ucast (signed_drop_bit 8 (scast v :: 32 word) AND 0xFF)"

definition lo_byte :: "s16 \<Rightarrow> u8" where
  "lo_byte v = ucast ((scast v :: 32 word) AND 0xFF)"

definition dm_packet_send_button_pressed ::
  "u8 \<Rightarrow> 'h dm_platform_t option \<Rightarrow> 'h dm_world \<Rightarrow> 'h dm_world" where
  "dm_packet_send_button_pressed widget_idx plat w =
     dm_packet_send EVT_BUTTON_PRESSED (s_seq_counter w) (Some [widget_idx]) 1 plat
       (w\<lparr>s_seq_counter := s_seq_counter w + 1\<rparr>)"

definition dm_packet_send_slider_changed ::
  "u8 \<Rightarrow> s16 \<Rightarrow> 'h dm_platform_t option \<Rightarrow> 'h dm_world \<Rightarrow> 'h dm_world" where
  "dm_packet_send_slider_changed widget_idx val plat w =
     dm_packet_send EVT_SLIDER_CHANGED (s_seq_counter w)
       (Some [widget_idx, hi_byte val, lo_byte val]) 3 plat
       (w\<lparr>s_seq_counter := s_seq_counter w + 1\<rparr>)"

definition dm_packet_send_page_changed ::
  "u8 \<Rightarrow> 'h dm_platform_t option \<Rightarrow> 'h dm_world \<Rightarrow> 'h dm_world" where
  "dm_packet_send_page_changed page_id plat w =
     dm_packet_send EVT_PAGE_CHANGED (s_seq_counter w) (Some [page_id]) 1 plat
       (w\<lparr>s_seq_counter := s_seq_counter w + 1\<rparr>)"

definition dm_packet_send_touch_event ::
  "s16 \<Rightarrow> s16 \<Rightarrow> 'h dm_platform_t option \<Rightarrow> 'h dm_world \<Rightarrow> 'h dm_world" where
  "dm_packet_send_touch_event x y plat w =
     dm_packet_send EVT_TOUCH_EVENT (s_seq_counter w)
       (Some [hi_byte x, lo_byte x, hi_byte y, lo_byte y]) 4 plat
       (w\<lparr>s_seq_counter := s_seq_counter w + 1\<rparr>)"

section \<open>Page switching and the SHOW\_PAGE handler (ui\_pages.c, dm\_binder.c)\<close>

definition ui_pages_show :: "u8 \<Rightarrow> 'h dm_world \<Rightarrow> bool \<times> 'h dm_world" where
  "ui_pages_show page_id w =
     (if page_id \<ge> s_page_count w then (False, w)
      else (True, w\<lparr>lv_scr_act := Some page_id, s_current_page := page_id\<rparr>))"

text \<open>
  The binder's override of \<^verbatim>\<open>dm_handle_show_page(seq, p, len, plat)\<close>; \<open>p\<close> is the
  buffer the dispatcher passes (the frame's payload array), read at index 0.
\<close>

definition dm_handle_show_page ::
  "u8 \<Rightarrow> u8 list \<Rightarrow> u8 \<Rightarrow> 'h dm_platform_t option \<Rightarrow> 'h dm_world \<Rightarrow> 'h dm_world" where
  "dm_handle_show_page seq p len plat w =
     (if len < 1 then dm_packet_send_nack seq plat w
      else
        (let page_id = p ! 0 in
         case ui_pages_show page_id w of
           (True, w1) \<Rightarrow>
             dm_packet_send_page_changed page_id plat (dm_packet_send_ack seq plat None 0 w1)
         | (False, w1) \<Rightarrow> dm_packet_send_nack seq plat w1))"

section \<open>Harness: initial statics, observers and test inputs\<close>

text \<open>
  The statics as their initialisers leave them at boot: \<^verbatim>\<open>s_seq_counter = 0\<close>,
  \<^verbatim>\<open>s_page_count = 0\<close>, \<^verbatim>\<open>s_current_page = 0xFF\<close>, no screen loaded.
\<close>

definition boot_world :: "'h \<Rightarrow> 'h dm_world" where
  "boot_world h =
     \<lparr>hw = h, s_seq_counter = 0, s_page_count = 0, s_current_page = 0xFF, lv_scr_act = None\<rparr>"

text \<open>
  A dispatcher that only records the frames handed to it, in order, in place of
  \<^verbatim>\<open>dm_protocol_dispatch\<close>.
\<close>

definition spy_dispatch ::
  "dm_frame_t \<Rightarrow> (dm_frame_t list) dm_platform_t option \<Rightarrow>
   (dm_frame_t list) dm_world \<Rightarrow> (dm_frame_t list) dm_world" where
  "spy_dispatch f plat w = w\<lparr>hw := hw w @ [f]\<rparr>"

text \<open>
  A platform whose \<^verbatim>\<open>write_bytes\<close> appends each buffer it is given to the list of
  transmitted buffers; its clock stands still and its log sink drops the message.
\<close>

definition capture_write :: "u8 list \<Rightarrow> u8 list list \<Rightarrow> u8 list list" where
  "capture_write data h = h @ [data]"

definition capture_millis :: "u8 list list \<Rightarrow> u32 \<times> u8 list list" where
  "capture_millis h = (0, h)"

definition capture_log :: "string \<Rightarrow> u8 list list \<Rightarrow> u8 list list" where
  "capture_log msg h = h"

definition capture_platform :: "(u8 list list) dm_platform_t" where
  "capture_platform =
     \<lparr>write_bytes = Some capture_write, millis = Some capture_millis, log = Some capture_log\<rparr>"

text \<open>The bytes of an ASCII string.\<close>

definition ascii_bytes :: "string \<Rightarrow> u8 list" where
  "ascii_bytes s = map (\<lambda>c. of_nat (of_char c)) s"

text \<open>A single-bit error on the line: bit \<open>k\<close> of the byte at position \<open>i\<close> is inverted.\<close>

definition flip_bit :: "u8 list \<Rightarrow> nat \<Rightarrow> nat \<Rightarrow> u8 list" where
  "flip_bit bytes i k = bytes[i := (bytes ! i) XOR push_bit k 1]"

text \<open>
  A call of one of the four event wrappers of \<^verbatim>\<open>dm_packet.c\<close>, and a sequence of such
  calls made one after the other.
\<close>

datatype event_call =
    Button_pressed u8
  | Slider_changed u8 s16
  | Page_changed u8
  | Touch_event s16 s16

fun send_event :: "event_call \<Rightarrow> 'h dm_platform_t option \<Rightarrow> 'h dm_world \<Rightarrow> 'h dm_world" where
  "send_event (Button_pressed i) plat w = dm_packet_send_button_pressed i plat w"
| "send_event (Slider_changed i v) plat w = dm_packet_send_slider_changed i v plat w"
| "send_event (Page_changed i) plat w = dm_packet_send_page_changed i plat w"
| "send_event (Touch_event x y) plat w = dm_packet_send_touch_event x y plat w"

fun send_events :: "event_call list \<Rightarrow> 'h dm_platform_t option \<Rightarrow> 'h dm_world \<Rightarrow> 'h dm_world" where
  "send_events [] plat w = w"
| "send_events (e # es) plat w = send_events es plat (send_event e plat w)"

text \<open>
  The invariant of the parser context: the payload array keeps its declared size, and in
  the \<^verbatim>\<open>PARSE_PAYLOAD\<close> state the cursor is below the announced length, which is within
  the array.
\<close>

definition parser_inv :: "dm_parser_t \<Rightarrow> bool" where
  "parser_inv p \<longleftrightarrow>
     length (payload (frame p)) = DM_MAX_PAYLOAD \<and>
     (state p = PARSE_PAYLOAD \<longrightarrow>
        unat (payload_index p) < unat (payload_len (frame p)) \<and>
        unat (payload_len (frame p)) \<le> DM_MAX_PAYLOAD)"

text \<open>
  The outcome \<open>r\<close> of feeding a frame that fails the CRC check to the parser \<open>p\<close> in
  world \<open>w\<close>: the error counter is incremented, the context is reset, the mismatch is
  logged and nothing else happens to the world.
\<close>

definition crc_dropped ::
  "dm_parser_t \<Rightarrow> 'h dm_platform_t option \<Rightarrow> 'h dm_world \<Rightarrow> dm_parser_t \<times> 'h dm_world \<Rightarrow> bool" where
  "crc_dropped p plat w r \<longleftrightarrow>
     (\<exists>f. r = (parser_reset (p\<lparr>frame := f, frames_crc_err := frames_crc_err p + 1\<rparr>),
               plat_log plat ''DM: CRC mismatch, frame dropped'' w))"

section \<open>CRC check values\<close>

text \<open>
  Claim C5. The CRC of the nine ASCII bytes of "123456789", from the seed 0xFFFF with
  polynomial 0x1021 and no final XOR, is 0x29B1, and the CRC of the empty sequence is the
  seed 0xFFFF.
\<close>

theorem crc16_ccitt_check_values:
  "crc16_ccitt (ascii_bytes ''123456789'') = 0x29B1 \<and> crc16_ccitt [] = 0xFFFF"
  by code_simp

section \<open>CRC16: a changed byte changes the checksum\<close>

text \<open>
  One shift step is injective: bit 0 of its result is the old top bit, and the other bits
  are the old bits 0 to 14, XORed with the polynomial exactly when the top bit was set. So
  \<^verbatim>\<open>crc16_update\<close> is injective in the running CRC and in the byte, and the two CRC bytes of
  a frame determine the 16-bit value.
\<close>

lemma xor_left_cancel_word: "(a :: 'a::len word) XOR p = a XOR q \<Longrightarrow> p = q"
proof -
  assume "a XOR p = a XOR q"
  then have "a XOR (a XOR p) = a XOR (a XOR q)" by simp
  then show "p = q" by (simp add: xor.assoc [symmetric])
qed

lemma xor_right_cancel_word: "(a :: 'a::len word) XOR p = b XOR p \<Longrightarrow> a = b"
  using xor_left_cancel_word [of p a b] by (simp add: xor.commute)

lemma top_bit_test: "(a AND (0x8000 :: u16) \<noteq> 0) = bit a 15"
proof -
  have "(0x8000 :: u16) = 2 ^ 15" by simp
  then show ?thesis by (simp only: and_exp_eq_0_iff_not_bit) simp
qed

lemma crc16_shift_alt:
  "crc16_shift a = push_bit 1 a XOR (if bit a 15 then 0x1021 else 0)"
  unfolding crc16_shift_def CRC16_POLY_def top_bit_test by simp

lemma crc16_shift_bit0: "bit (crc16_shift a) 0 = bit a 15"
  by (simp add: crc16_shift_alt bit_0 even_xor_iff)

lemma low_byte_mask: "(c :: u16) AND 0xFF = take_bit 8 c"
proof -
  have "(0xFF :: u16) = mask 8" by (simp add: mask_eq_exp_minus_1)
  then show ?thesis by (simp add: take_bit_eq_mask)
qed

lemma crc16_shift_inj:
  assumes "crc16_shift a = crc16_shift b"
  shows "a = b"
proof -
  have top: "bit a 15 = bit b 15"
    using assms crc16_shift_bit0 by metis
  have sh: "push_bit 1 a = push_bit 1 b"
    using assms top by (auto simp add: crc16_shift_alt split: if_splits dest: xor_right_cancel_word)
  show ?thesis
  proof (rule bit_eqI)
    fix n
    assume "possible_bit TYPE(u16) n"
    then have n: "n < 16" by (simp add: possible_bit_def)
    show "bit a n = bit b n"
    proof (cases "n = 15")
      case True
      then show ?thesis using top by simp
    next
      case False
      with n have "Suc n < 16" by simp
      moreover have "bit (push_bit 1 a) (Suc n) = bit (push_bit 1 b) (Suc n)"
        using sh by (simp only:)
      ultimately show ?thesis
        unfolding bit_push_bit_iff by (simp add: possible_bit_def)
    qed
  qed
qed

lemma crc16_loop_inj: "crc16_loop n a = crc16_loop n b \<Longrightarrow> a = b"
  by (induction n arbitrary: a b) (auto dest: crc16_shift_inj)

lemma byte_shift_inj:
  assumes "push_bit 8 (ucast (x :: u8) :: u16) = push_bit 8 (ucast y)"
  shows "x = y"
proof (rule bit_eqI)
  fix n
  assume "possible_bit TYPE(u8) n"
  then have n: "n < 8" by (simp add: possible_bit_def)
  have "bit (push_bit 8 (ucast x :: u16)) (n + 8) = bit (push_bit 8 (ucast y :: u16)) (n + 8)"
    using assms by simp
  then show "bit x n = bit y n"
    using n by (simp add: bit_simps)
qed

lemma crc16_update_inj_crc: "crc16_update a x = crc16_update b x \<Longrightarrow> a = b"
  unfolding crc16_update_def by (auto dest!: crc16_loop_inj xor_right_cancel_word)

lemma crc16_update_inj_byte: "crc16_update a x = crc16_update a y \<Longrightarrow> x = y"
  unfolding crc16_update_def by (auto dest!: crc16_loop_inj xor_left_cancel_word byte_shift_inj)

lemma crc_join_split:
  "push_bit 8 (ucast (ucast (drop_bit 8 c) :: u8) :: u16) OR ucast (ucast (c AND 0xFF) :: u8) =
     (c :: u16)"
  unfolding low_byte_mask
  by (rule bit_eqI) (auto simp add: bit_simps possible_bit_def)

lemma crc_join_inj:
  assumes "push_bit 8 (ucast (h1 :: u8) :: u16) OR ucast (l1 :: u8) =
           push_bit 8 (ucast (h2 :: u8)) OR ucast (l2 :: u8)"
  shows "h1 = h2 \<and> l1 = l2"
proof
  show "h1 = h2"
  proof (rule bit_eqI)
    fix n
    assume "possible_bit TYPE(u8) n"
    then have n: "n < 8" by (simp add: possible_bit_def)
    have "bit (push_bit 8 (ucast h1 :: u16) OR ucast l1) (n + 8) =
          bit (push_bit 8 (ucast h2 :: u16) OR ucast l2) (n + 8)"
      using assms by simp
    moreover have "\<not> bit l1 (n + 8)" "\<not> bit l2 (n + 8)"
      by (auto dest: bit_imp_le_length)
    ultimately show "bit h1 n = bit h2 n"
      using n by (simp add: bit_simps)
  qed
  show "l1 = l2"
  proof (rule bit_eqI)
    fix n
    assume "possible_bit TYPE(u8) n"
    then have n: "n < 8" by (simp add: possible_bit_def)
    have "bit (push_bit 8 (ucast h1 :: u16) OR ucast l1) n =
          bit (push_bit 8 (ucast h2 :: u16) OR ucast l2) n"
      using assms by simp
    then show "bit l1 n = bit l2 n"
      using n by (simp add: bit_simps)
  qed
qed

section \<open>Parsing one frame\<close>

text \<open>
  What the parser does with a whole frame \<^verbatim>\<open>AA v c s len payload hi lo\<close> when it starts in
  \<^verbatim>\<open>PARSE_WAIT_START\<close>: the payload loop first, then header and CRC bytes around it.
\<close>

lemma unat_index_succ:
  "unat (i :: u16) < 128 \<Longrightarrow> unat (i + 1) = Suc (unat i)"
  by (simp add: unat_word_ariths)

lemma payload_splice:
  assumes "i < n" "n \<le> length xs"
  shows "take (Suc i) (xs[i := b]) @ bs @ drop n (xs[i := b]) = take i xs @ (b # bs) @ drop n xs"
proof -
  have "i < length xs" using assms by simp
  then have "take (Suc i) (xs[i := b]) = take i xs @ [b]"
    by (simp add: take_Suc_conv_app_nth)
  moreover have "drop n (xs[i := b]) = drop n xs"
    using assms by simp
  ultimately show ?thesis by simp
qed

lemma feed_payload:
  assumes "state p = PARSE_PAYLOAD"
    and "unat (payload_index p) + length bs = unat (payload_len (frame p))"
    and "bs \<noteq> []"
    and "length (payload (frame p)) = DM_MAX_PAYLOAD"
    and "unat (payload_len (frame p)) \<le> DM_MAX_PAYLOAD"
  shows "dm_parser_feed_all d p bs plat w =
    (p\<lparr>frame := (frame p)\<lparr>payload :=
          take (unat (payload_index p)) (payload (frame p)) @ bs @
          drop (unat (payload_len (frame p))) (payload (frame p))\<rparr>,
       payload_index := payload_index p + of_nat (length bs),
       running_crc := foldl crc16_update (running_crc p) bs,
       state := PARSE_CRC_HIGH\<rparr>, w)"
  using assms
proof (induction bs arbitrary: p)
  case Nil
  then show ?case by simp
next
  case (Cons b bs)
  let ?i = "unat (payload_index p)"
  let ?n = "unat (payload_len (frame p))"
  have i: "?i < ?n" "?n \<le> 128" "?i < 128"
    using Cons.prems by (auto simp: DM_MAX_PAYLOAD_def)
  have suc: "unat (payload_index p + 1) = Suc ?i"
    using i by (simp add: unat_index_succ)
  have len: "length (payload (frame p)) = 128"
    using Cons.prems by (simp add: DM_MAX_PAYLOAD_def)
  show ?case
  proof (cases "bs = []")
    case True
    then have "Suc ?i = ?n" using Cons.prems by simp
    then show ?thesis
      using True Cons.prems(1) suc i len upd_conv_take_nth_drop [of ?i "payload (frame p)" b]
      by (simp add: dm_parser_feed_def Let_def)
  next
    case False
    then have lt: "Suc ?i < ?n" using Cons.prems(2) by (cases bs) auto
    define p1 where "p1 = p\<lparr>frame := (frame p)\<lparr>payload := (payload (frame p))[?i := b]\<rparr>,
                       payload_index := payload_index p + 1,
                       running_crc := crc16_update (running_crc p) b\<rparr>"
    have step: "dm_parser_feed d p b plat w = (p1, w)"
      using Cons.prems(1) suc lt by (simp add: dm_parser_feed_def Let_def p1_def)
    have p1: "state p1 = PARSE_PAYLOAD"
      "unat (payload_index p1) + length bs = unat (payload_len (frame p1))"
      "length (payload (frame p1)) = DM_MAX_PAYLOAD"
      "unat (payload_len (frame p1)) \<le> DM_MAX_PAYLOAD"
      using Cons.prems suc by (simp_all add: p1_def)
    have "dm_parser_feed_all d p (b # bs) plat w = dm_parser_feed_all d p1 bs plat w"
      using step by simp
    also have "\<dots> = (p1\<lparr>frame := (frame p1)\<lparr>payload :=
          take (unat (payload_index p1)) (payload (frame p1)) @ bs @
          drop (unat (payload_len (frame p1))) (payload (frame p1))\<rparr>,
       payload_index := payload_index p1 + of_nat (length bs),
       running_crc := foldl crc16_update (running_crc p1) bs,
       state := PARSE_CRC_HIGH\<rparr>, w)"
      using Cons.IH [OF p1(1) p1(2) False p1(3) p1(4)] .
    also have "\<dots> = (p\<lparr>frame := (frame p)\<lparr>payload :=
          take ?i (payload (frame p)) @ (b # bs) @
          drop ?n (payload (frame p))\<rparr>,
       payload_index := payload_index p + of_nat (length (b # bs)),
       running_crc := foldl crc16_update (running_crc p) (b # bs),
       state := PARSE_CRC_HIGH\<rparr>, w)"
      using suc i len payload_splice [of ?i ?n "payload (frame p)" b bs]
      by (simp add: p1_def)
    finally show ?thesis .
  qed
qed

lemma feed_all_append:
  "dm_parser_feed_all d p (xs @ ys) plat w =
     (case dm_parser_feed_all d p xs plat w of (p', w') \<Rightarrow> dm_parser_feed_all d p' ys plat w')"
  by (induction xs arbitrary: p w) (auto split: prod.splits)

lemma feed_header:
  assumes "state p = PARSE_WAIT_START" "unat l \<le> DM_MAX_PAYLOAD"
  shows "dm_parser_feed_all d p (DM_START_BYTE # v # c # s # l # rest) plat w =
     dm_parser_feed_all d
       (p\<lparr>state := (if l = 0 then PARSE_CRC_HIGH else PARSE_PAYLOAD),
          frame := (frame p)\<lparr>version := v, command := c, seq_id := s, payload_len := l\<rparr>,
          payload_index := 0,
          running_crc := crc16_ccitt [v, c, s, l],
          crc_high := 0\<rparr>) rest plat w"
  using assms by (cases p) (simp add: dm_parser_feed_def parser_reset_def crc16_ccitt_def)

lemma feed_crc:
  assumes "state p = PARSE_CRC_HIGH"
  shows "dm_parser_feed_all d p [hi, lo] plat w =
     (if push_bit 8 (ucast hi :: u16) OR ucast lo = running_crc p
      then (parser_reset (p\<lparr>frames_ok := frames_ok p + 1\<rparr>), d (frame p) plat w)
      else (parser_reset (p\<lparr>frames_crc_err := frames_crc_err p + 1\<rparr>),
            plat_log plat ''DM: CRC mismatch, frame dropped'' w))"
  using assms by (cases p) (simp add: dm_parser_feed_def parser_reset_def Let_def)

lemma unat_len_byte: "n \<le> DM_MAX_PAYLOAD \<Longrightarrow> unat (of_nat n :: u8) = n"
  by (simp add: DM_MAX_PAYLOAD_def unat_of_nat)

lemma len_byte_zero:
  assumes "n \<le> DM_MAX_PAYLOAD"
  shows "(of_nat n :: u8) = 0 \<longleftrightarrow> n = 0"
proof
  assume "(of_nat n :: u8) = 0"
  then have "unat (of_nat n :: u8) = 0" by simp
  then show "n = 0" using unat_len_byte [of n] assms by simp
next
  assume "n = 0"
  then show "(of_nat n :: u8) = 0" by simp
qed

lemma frame_header_update:
  "(f :: dm_frame_t)\<lparr>version := v, command := c, seq_id := s, payload_len := l\<rparr> =
     \<lparr>version = v, command = c, seq_id = s, payload_len = l, payload = payload f\<rparr>"
  by (cases f) simp

lemma frame_all_update:
  "(f :: dm_frame_t)\<lparr>version := v, command := c, seq_id := s, payload_len := l, payload := x\<rparr> =
     \<lparr>version = v, command = c, seq_id = s, payload_len = l, payload = x\<rparr>"
  by (cases f) simp

lemma feed_frame:
  assumes "state p = PARSE_WAIT_START"
    and "length (payload (frame p)) = DM_MAX_PAYLOAD"
    and "length pl \<le> DM_MAX_PAYLOAD"
  shows "dm_parser_feed_all d p
           (DM_START_BYTE # v # c # s # of_nat (length pl) # pl @ [hi, lo]) plat w =
     (let f = \<lparr>version = v, command = c, seq_id = s, payload_len = of_nat (length pl),
               payload = pl @ drop (length pl) (payload (frame p))\<rparr>
      in if push_bit 8 (ucast hi :: u16) OR ucast lo =
            crc16_ccitt (v # c # s # of_nat (length pl) # pl)
         then (parser_reset (p\<lparr>frame := f, frames_ok := frames_ok p + 1\<rparr>), d f plat w)
         else (parser_reset (p\<lparr>frame := f, frames_crc_err := frames_crc_err p + 1\<rparr>),
               plat_log plat ''DM: CRC mismatch, frame dropped'' w))"
proof -
  let ?l = "of_nat (length pl) :: u8"
  have ul: "unat ?l = length pl" using assms(3) by (rule unat_len_byte)
  let ?p1 = "p\<lparr>state := (if ?l = 0 then PARSE_CRC_HIGH else PARSE_PAYLOAD),
          frame := (frame p)\<lparr>version := v, command := c, seq_id := s, payload_len := ?l\<rparr>,
          payload_index := 0,
          running_crc := crc16_ccitt [v, c, s, ?l],
          crc_high := 0\<rparr>"
  have hdr: "dm_parser_feed_all d p (DM_START_BYTE # v # c # s # ?l # pl @ [hi, lo]) plat w =
      dm_parser_feed_all d ?p1 (pl @ [hi, lo]) plat w"
    using assms(1) ul assms(3) by (intro feed_header) simp_all
  show ?thesis
  proof (cases "pl = []")
    case True
    then show ?thesis
      unfolding hdr using feed_crc [of ?p1 d hi lo plat w]
      by (simp add: parser_reset_def Let_def frame_header_update)
  next
    case False
    then have nz: "?l \<noteq> 0" using len_byte_zero [OF assms(3)] by simp
    let ?p2 = "?p1\<lparr>frame := (frame ?p1)\<lparr>payload :=
          take (unat (payload_index ?p1)) (payload (frame ?p1)) @ pl @
          drop (unat (payload_len (frame ?p1))) (payload (frame ?p1))\<rparr>,
       payload_index := payload_index ?p1 + of_nat (length pl),
       running_crc := foldl crc16_update (running_crc ?p1) pl,
       state := PARSE_CRC_HIGH\<rparr>"
    have pay: "dm_parser_feed_all d ?p1 pl plat w = (?p2, w)"
      using nz ul assms(2,3) False by (intro feed_payload) simp_all
    have crc: "foldl crc16_update (crc16_ccitt [v, c, s, ?l]) pl = crc16_ccitt (v # c # s # ?l # pl)"
      by (simp add: crc16_ccitt_def)
    show ?thesis
      unfolding hdr feed_all_append pay
      using feed_crc [of ?p2 d hi lo plat w] nz ul crc
      by (simp add: parser_reset_def Let_def frame_all_update)
  qed
qed

section \<open>Corrupted frames\<close>

text \<open>
  A frame in which one byte of the CRC-covered part other than the length, or one of the two
  CRC bytes, has been changed fails the CRC check.
\<close>


lemma flipped_byte_differs: "k < 8 \<Longrightarrow> (x :: u8) XOR push_bit k 1 \<noteq> x"
proof
  assume k: "k < 8" and "x XOR push_bit k 1 = x"
  then have "bit (x XOR push_bit k 1) k = bit x k" by simp
  then show False using k by (simp add: bit_simps)
qed

lemma crc_fold_inj: "foldl crc16_update a bs = foldl crc16_update b bs \<Longrightarrow> a = b"
  by (induction bs arbitrary: a b) (auto dest: crc16_update_inj_crc)

lemma crc_fold_update:
  assumes "j < length bs" "y \<noteq> bs ! j"
  shows "foldl crc16_update a (bs[j := y]) \<noteq> foldl crc16_update a bs"
  using assms
proof (induction bs arbitrary: j a)
  case Nil
  then show ?case by simp
next
  case (Cons x xs)
  show ?case
  proof (cases j)
    case 0
    then have "y \<noteq> x" using Cons.prems by simp
    then have "crc16_update a y \<noteq> crc16_update a x"
      using crc16_update_inj_byte by blast
    then show ?thesis using 0 crc_fold_inj by auto
  next
    case (Suc j')
    then show ?thesis using Cons by simp
  qed
qed

lemma crc16_ccitt_update:
  "j < length bs \<Longrightarrow> y \<noteq> bs ! j \<Longrightarrow> crc16_ccitt (bs[j := y]) \<noteq> crc16_ccitt bs"
  unfolding crc16_ccitt_def by (rule crc_fold_update)

lemma packet_frame_shape:
  assumes "length pl \<le> DM_MAX_PAYLOAD"
  shows "dm_packet_frame cmd seq (Some pl) (of_nat (length pl)) =
     DM_START_BYTE # (DM_PROTOCOL_VERSION # cmd # seq # of_nat (length pl) # pl) @
       [ucast (drop_bit 8 (crc16_ccitt (DM_PROTOCOL_VERSION # cmd # seq # of_nat (length pl) # pl))),
        ucast (crc16_ccitt (DM_PROTOCOL_VERSION # cmd # seq # of_nat (length pl) # pl) AND 0xFF)]"
proof (cases "pl = []")
  case True
  then show ?thesis by (simp add: dm_packet_frame_def Let_def DM_MAX_PAYLOAD_def)
next
  case False
  then have "(of_nat (length pl) :: u8) \<noteq> 0"
    using len_byte_zero [OF assms] by simp
  then have "(of_nat (length pl) :: u8) > 0"
    by (simp add: word_greater_zero_iff)
  then show ?thesis
    using unat_len_byte [OF assms] assms by (simp add: dm_packet_frame_def Let_def)
qed

lemma feed_frame_bad_crc:
  assumes "state p = PARSE_WAIT_START"
    and "length (payload (frame p)) = DM_MAX_PAYLOAD"
    and "length pl \<le> DM_MAX_PAYLOAD"
    and "push_bit 8 (ucast hi :: u16) OR ucast lo \<noteq> crc16_ccitt (v # c # s # of_nat (length pl) # pl)"
  shows "crc_dropped p plat w (dm_parser_feed_all d p
           (DM_START_BYTE # (v # c # s # of_nat (length pl) # pl) @ [hi, lo]) plat w)"
  using feed_frame [OF assms(1-3), of d v c s hi lo plat w] assms(4)
  by (auto simp: crc_dropped_def Let_def)

lemma feed_frame_body_corrupted:
  assumes p: "state p = PARSE_WAIT_START" "length (payload (frame p)) = DM_MAX_PAYLOAD"
    and n: "length pl \<le> DM_MAX_PAYLOAD"
    and body: "body = v # c # s # of_nat (length pl) # pl"
    and j: "j < length body" "j \<noteq> 3"
    and y: "y \<noteq> body ! j"
    and crc: "push_bit 8 (ucast hi :: u16) OR ucast lo = crc16_ccitt body"
  shows "crc_dropped p plat w
           (dm_parser_feed_all d p (DM_START_BYTE # body[j := y] @ [hi, lo]) plat w)"
proof -
  have ne: "push_bit 8 (ucast hi :: u16) OR ucast lo \<noteq> crc16_ccitt (body[j := y])"
    using crc16_ccitt_update [OF j(1) y] crc by simp
  consider "j = 0" | "j = 1" | "j = 2" | "j \<ge> 4" using j(2) by linarith
  then show ?thesis
  proof cases
    case 1
    then have "body[j := y] = y # c # s # of_nat (length pl) # pl" by (simp add: body)
    with ne show ?thesis using feed_frame_bad_crc [OF p n, of hi lo y c s] by simp
  next
    case 2
    then have "body[j := y] = v # y # s # of_nat (length pl) # pl" by (simp add: body)
    with ne show ?thesis using feed_frame_bad_crc [OF p n, of hi lo v y s] by simp
  next
    case 3
    then have "body[j := y] = v # c # y # of_nat (length pl) # pl"
      by (simp add: body numeral_2_eq_2)
    with ne show ?thesis using feed_frame_bad_crc [OF p n, of hi lo v c y] by simp
  next
    case 4
    define m where "m = j - 4"
    have m: "j = Suc (Suc (Suc (Suc m)))" using 4 by (simp add: m_def)
    then have eq: "body[j := y] = v # c # s # of_nat (length (pl[m := y])) # pl[m := y]"
      by (simp add: body)
    have "length (pl[m := y]) \<le> DM_MAX_PAYLOAD" using n by simp
    from feed_frame_bad_crc [OF p this, of hi lo v c s] ne show ?thesis
      unfolding eq by simp
  qed
qed

lemma feed_frame_crc_corrupted:
  assumes p: "state p = PARSE_WAIT_START" "length (payload (frame p)) = DM_MAX_PAYLOAD"
    and n: "length pl \<le> DM_MAX_PAYLOAD"
    and body: "body = v # c # s # of_nat (length pl) # pl"
    and crc: "push_bit 8 (ucast hi :: u16) OR ucast lo = crc16_ccitt body"
    and ne: "hi' \<noteq> hi \<or> lo' \<noteq> lo"
  shows "crc_dropped p plat w
           (dm_parser_feed_all d p (DM_START_BYTE # body @ [hi', lo']) plat w)"
proof -
  have "push_bit 8 (ucast hi' :: u16) OR ucast lo' \<noteq> crc16_ccitt body"
    using crc_join_inj [of hi' lo' hi lo] ne crc by auto
  then show ?thesis
    using feed_frame_bad_crc [OF p n, of hi' lo' v c s] by (simp add: body)
qed

lemma flip_single_bit_rejected:
  assumes p: "state p = PARSE_WAIT_START" "length (payload (frame p)) = DM_MAX_PAYLOAD"
    and n: "length pl \<le> DM_MAX_PAYLOAD"
    and i: "i < length (dm_packet_frame cmd seq (Some pl) (of_nat (length pl)))" "i \<noteq> 0" "i \<noteq> 4"
    and k: "k < 8"
  shows "crc_dropped p plat w
           (dm_parser_feed_all d p
              (flip_bit (dm_packet_frame cmd seq (Some pl) (of_nat (length pl))) i k) plat w)"
proof -
  define body where "body = DM_PROTOCOL_VERSION # cmd # seq # of_nat (length pl) # pl"
  define hi :: u8 where "hi = ucast (drop_bit 8 (crc16_ccitt body))"
  define lo :: u8 where "lo = ucast (crc16_ccitt body AND 0xFF)"
  have shape: "dm_packet_frame cmd seq (Some pl) (of_nat (length pl)) = DM_START_BYTE # body @ [hi, lo]"
    using packet_frame_shape [OF n] by (simp add: body_def hi_def lo_def)
  have crc: "push_bit 8 (ucast hi :: u16) OR ucast lo = crc16_ccitt body"
    unfolding hi_def lo_def by (rule crc_join_split)
  obtain j where j: "i = Suc j" using i(2) by (cases i) auto
  have jlen: "j < length body + 2" using i(1) unfolding shape j by simp
  have j3: "j \<noteq> 3" using i(3) j by simp
  let ?m = "push_bit k 1 :: u8"
  consider "j < length body" | "j = length body" | "j = Suc (length body)"
    using jlen by linarith
  then show ?thesis
  proof cases
    case 1
    then have "flip_bit (DM_START_BYTE # body @ [hi, lo]) i k =
        DM_START_BYTE # body[j := body ! j XOR ?m] @ [hi, lo]"
      by (simp add: flip_bit_def j list_update_append nth_append)
    moreover have "body ! j XOR ?m \<noteq> body ! j" using k by (rule flipped_byte_differs)
    ultimately show ?thesis
      unfolding shape
      using feed_frame_body_corrupted [OF p n _ 1 j3 _ crc, of DM_PROTOCOL_VERSION cmd seq "body ! j XOR ?m"]
      by (simp add: body_def)
  next
    case 2
    then have "flip_bit (DM_START_BYTE # body @ [hi, lo]) i k =
        DM_START_BYTE # body @ [hi XOR ?m, lo]"
      by (simp add: flip_bit_def j list_update_append nth_append)
    moreover have "hi XOR ?m \<noteq> hi" using k by (rule flipped_byte_differs)
    ultimately show ?thesis
      unfolding shape
      using feed_frame_crc_corrupted [OF p n _ crc, of DM_PROTOCOL_VERSION cmd seq "hi XOR ?m" lo]
      by (simp add: body_def)
  next
    case 3
    then have "flip_bit (DM_START_BYTE # body @ [hi, lo]) i k =
        DM_START_BYTE # body @ [hi, lo XOR ?m]"
      by (simp add: flip_bit_def j list_update_append nth_append)
    moreover have "lo XOR ?m \<noteq> lo" using k by (rule flipped_byte_differs)
    ultimately show ?thesis
      unfolding shape
      using feed_frame_crc_corrupted [OF p n _ crc, of DM_PROTOCOL_VERSION cmd seq hi "lo XOR ?m"]
      by (simp add: body_def)
  qed
qed

section \<open>The parser invariant\<close>

lemma parser_inv_init: "parser_inv dm_parser_init"
  by (simp add: parser_inv_def dm_parser_init_def parser_reset_def)

lemma parser_inv_feed:
  assumes "parser_inv p"
  shows "parser_inv (fst (dm_parser_feed d p b plat w))"
proof (cases "state p")
  case PARSE_PAYLOAD
  then have i: "unat (payload_index p) < 128"
    using assms by (simp add: parser_inv_def DM_MAX_PAYLOAD_def)
  show ?thesis
    using assms PARSE_PAYLOAD unat_index_succ [OF i]
    by (auto simp: parser_inv_def dm_parser_feed_def Let_def)
next
  case PARSE_LENGTH
  then show ?thesis
    using assms
    by (auto simp: parser_inv_def dm_parser_feed_def parser_reset_def unat_gt_0)
qed (use assms in \<open>auto simp: parser_inv_def dm_parser_feed_def parser_reset_def Let_def\<close>)

lemma parser_inv_feed_all:
  "parser_inv p \<Longrightarrow> parser_inv (fst (dm_parser_feed_all d p bs plat w))"
proof (induction bs arbitrary: p w)
  case Nil
  then show ?case by simp
next
  case (Cons b bs)
  obtain p' w' where step: "dm_parser_feed d p b plat w = (p', w')"
    by (cases "dm_parser_feed d p b plat w")
  then have "parser_inv p'" using parser_inv_feed [OF Cons.prems, of d b plat w] by simp
  then show ?case using Cons.IH step by simp
qed

section \<open>Facts about the encoder and the event counter\<close>

lemma init_wait: "state dm_parser_init = PARSE_WAIT_START"
  by (simp add: dm_parser_init_def parser_reset_def)

lemma init_buffer: "length (payload (frame dm_parser_init)) = DM_MAX_PAYLOAD"
  by (simp add: dm_parser_init_def parser_reset_def)

lemma unat_start_byte: "unat DM_START_BYTE > DM_MAX_PAYLOAD"
  by (simp add: DM_START_BYTE_def DM_MAX_PAYLOAD_def)

lemma feed_packet_frame:
  assumes "state p = PARSE_WAIT_START"
    and "length (payload (frame p)) = DM_MAX_PAYLOAD"
    and "length pl \<le> DM_MAX_PAYLOAD"
  shows "dm_parser_feed_all d p (dm_packet_frame cmd seq (Some pl) (of_nat (length pl))) plat w =
     (let f = \<lparr>version = DM_PROTOCOL_VERSION, command = cmd, seq_id = seq,
               payload_len = of_nat (length pl),
               payload = pl @ drop (length pl) (payload (frame p))\<rparr>
      in (parser_reset (p\<lparr>frame := f, frames_ok := frames_ok p + 1\<rparr>), d f plat w))"
  unfolding packet_frame_shape [OF assms(3)]
  using feed_frame [OF assms, of d DM_PROTOCOL_VERSION cmd seq _ _ plat w]
  by (simp add: crc_join_split Let_def)

lemma capture_send:
  "hw (dm_packet_send cmd seq pay pay_len (Some capture_platform) tx) =
     hw tx @ [dm_packet_frame cmd seq pay pay_len]"
  by (simp add: dm_packet_send_def capture_platform_def capture_write_def)

lemma packet_frame_seq: "dm_packet_frame cmd seq pay pay_len ! 3 = seq"
  by (simp add: dm_packet_frame_def Let_def split: option.splits)

lemma crc_big_endian:
  "unat (ucast (drop_bit 8 (c :: u16)) :: u8) * 256 + unat (ucast (c AND 0xFF) :: u8) = unat c"
proof -
  have c: "unat c < 65536" using unsigned_less [of c] by simp
  have hi: "unat (ucast (drop_bit 8 c) :: u8) = unat c div 256"
  proof -
    have "unat (drop_bit 8 c) = unat c div 256"
      by (simp add: drop_bit_eq_div unat_div)
    moreover have "unat c div 256 < 256" using c by simp
    ultimately show ?thesis by (simp add: unsigned_ucast_eq take_bit_eq_mod)
  qed
  have lo: "unat (ucast (c AND 0xFF) :: u8) = unat c mod 256"
    unfolding low_byte_mask
    by (simp add: unsigned_ucast_eq unsigned_take_bit_eq take_bit_eq_mod unat_mod)
  show ?thesis unfolding hi lo by simp
qed

lemma send_event_capture:
  "\<exists>f. hw (send_event e (Some capture_platform) w) = hw w @ [f] \<and> f ! 3 = s_seq_counter w"
  by (cases e)
    (simp_all add: dm_packet_send_button_pressed_def dm_packet_send_slider_changed_def
      dm_packet_send_page_changed_def dm_packet_send_touch_event_def packet_frame_seq
      dm_packet_send_def capture_platform_def capture_write_def)

lemma send_event_counter: "s_seq_counter (send_event e plat w) = s_seq_counter w + 1"
  by (cases e)
    (simp_all add: dm_packet_send_button_pressed_def dm_packet_send_slider_changed_def
      dm_packet_send_page_changed_def dm_packet_send_touch_event_def
      dm_packet_send_def split: option.splits)

lemma seq_shift: "(unat ((s :: u8) + 1) + i) mod 256 = (unat s + Suc i) mod 256"
proof -
  have "unat (s + 1) = (unat s + 1) mod 256"
    by (simp add: unat_word_ariths)
  then show ?thesis by (simp add: mod_add_left_eq)
qed

lemma send_events_capture:
  "\<exists>frames. hw (send_events es (Some capture_platform) w) = hw w @ frames \<and>
     length frames = length es \<and>
     map (\<lambda>f. unat (f ! 3)) frames =
       map (\<lambda>i. (unat (s_seq_counter w) + i) mod 256) [0..<length es]"
proof (induction es arbitrary: w)
  case Nil
  then show ?case by simp
next
  case (Cons e es)
  obtain f where f: "hw (send_event e (Some capture_platform) w) = hw w @ [f]"
      "f ! 3 = s_seq_counter w"
    using send_event_capture by blast
  let ?w1 = "send_event e (Some capture_platform) w"
  obtain frames where fr: "hw (send_events es (Some capture_platform) ?w1) = hw ?w1 @ frames"
      "length frames = length es"
      "map (\<lambda>f. unat (f ! 3)) frames =
         map (\<lambda>i. (unat (s_seq_counter ?w1) + i) mod 256) [0..<length es]"
    using Cons.IH by blast
  have idx: "[0..<length (e # es)] = 0 # map Suc [0..<length es]"
    by (simp add: upt_conv_Cons map_Suc_upt del: upt_Suc)
  have small: "unat (s_seq_counter w) < 256"
    using unsigned_less [of "s_seq_counter w"] by simp
  have "map (\<lambda>f. unat (f ! 3)) (f # frames) =
      map (\<lambda>i. (unat (s_seq_counter w) + i) mod 256) [0..<length (e # es)]"
    unfolding idx using fr(3) f(2)
    by (simp add: send_event_counter seq_shift comp_def small)
  then show ?case
    using f(1) fr(1,2) by (intro exI [of _ "f # frames"]) simp
qed

lemma send_events_counter:
  "s_seq_counter (send_events es plat w) = s_seq_counter w + of_nat (length es)"
  by (induction es arbitrary: w) (simp_all add: send_event_counter)

section \<open>The start byte\<close>

text \<open>
  Claim C1, as the code has it. The byte 0xAA restarts header accumulation only when the
  parser waits for a start byte: there it moves to \<^verbatim>\<open>PARSE_VERSION\<close> with the running CRC
  0xFFFF and the payload index 0, and nothing is dispatched or logged. In every state after
  the start byte 0xAA is handled like any other byte of that state: it is stored as version,
  command or sequence number, rejected as a length above \<open>DM_MAX_PAYLOAD\<close>, stored as a
  payload byte, or taken as a CRC byte; the parser never moves to \<^verbatim>\<open>PARSE_VERSION\<close> from
  there.
\<close>

theorem start_byte_resync_only_when_waiting:
  "(state p = PARSE_WAIT_START \<longrightarrow>
      dm_parser_feed d p DM_START_BYTE plat w =
        (p\<lparr>state := PARSE_VERSION, payload_index := 0, running_crc := 0xFFFF, crc_high := 0\<rparr>, w)) \<and>
   state (fst (dm_parser_feed d p DM_START_BYTE plat w)) =
     (case state p of
        PARSE_WAIT_START \<Rightarrow> PARSE_VERSION
      | PARSE_VERSION \<Rightarrow> PARSE_COMMAND
      | PARSE_COMMAND \<Rightarrow> PARSE_SEQ_ID
      | PARSE_SEQ_ID \<Rightarrow> PARSE_LENGTH
      | PARSE_LENGTH \<Rightarrow> PARSE_WAIT_START
      | PARSE_PAYLOAD \<Rightarrow>
          (if unat (payload_index p + 1) \<ge> unat (payload_len (frame p))
           then PARSE_CRC_HIGH else PARSE_PAYLOAD)
      | PARSE_CRC_HIGH \<Rightarrow> PARSE_CRC_LOW
      | PARSE_CRC_LOW \<Rightarrow> PARSE_WAIT_START)"
  using unat_start_byte
  by (cases p) (auto simp: dm_parser_feed_def parser_reset_def Let_def split: dm_parse_state_t.splits)

text \<open>The freshly initialised parser waits for a start byte, and 0xAA starts a frame.\<close>

theorem start_byte_resync_only_when_waiting_witness:
  "dm_parser_feed spy_dispatch dm_parser_init DM_START_BYTE None (boot_world []) =
     (dm_parser_init\<lparr>state := PARSE_VERSION, payload_index := 0, running_crc := 0xFFFF,
        crc_high := 0\<rparr>, boot_world [])"
proof -
  have "state dm_parser_init = PARSE_WAIT_START"
    by (rule init_wait)
  then show ?thesis
    using start_byte_resync_only_when_waiting [of dm_parser_init spy_dispatch None "boot_world []"]
    by simp
qed

text \<open>
  Claim C1 as stated fails: after one start byte the parser is in \<^verbatim>\<open>PARSE_VERSION\<close>; a
  second 0xAA is stored as the version, the parser goes on to \<^verbatim>\<open>PARSE_COMMAND\<close> and the
  running CRC is 0xF550, not 0xFFFF.
\<close>

theorem start_byte_mid_frame_counterexample:
  "state (fst (dm_parser_feed_all spy_dispatch dm_parser_init [0xAA] None (boot_world []))) =
     PARSE_VERSION \<and>
   state (fst (dm_parser_feed_all spy_dispatch dm_parser_init [0xAA, 0xAA] None (boot_world []))) =
     PARSE_COMMAND \<and>
   version (frame (fst (dm_parser_feed_all spy_dispatch dm_parser_init [0xAA, 0xAA] None
     (boot_world [])))) = 0xAA \<and>
   running_crc (fst (dm_parser_feed_all spy_dispatch dm_parser_init [0xAA, 0xAA] None
     (boot_world []))) = 0xF550"
  by code_simp

section \<open>Single-bit errors\<close>

text \<open>
  Claim C2, as the code has it. Take the frame the encoder builds for a command, a sequence
  number and a payload of at most \<open>DM_MAX_PAYLOAD\<close> bytes, and invert one bit of any byte
  other than the start byte (position 0) and the length byte (position 4). Fed to a freshly
  initialised parser, the corrupted stream is dropped at the CRC check: \<open>frames_ok\<close> is 0,
  \<open>frames_crc_err\<close> is 1, the parser is back in \<^verbatim>\<open>PARSE_WAIT_START\<close>, the dispatcher is not
  called and the only effect on the world is the log message.
\<close>

theorem single_bit_flip_rejected:
  assumes "length pl \<le> DM_MAX_PAYLOAD"
    and "bytes = dm_packet_frame cmd seq (Some pl) (of_nat (length pl))"
    and "i < length bytes" "i \<noteq> 0" "i \<noteq> 4" "k < 8"
  shows "\<exists>p'. dm_parser_feed_all d dm_parser_init (flip_bit bytes i k) plat w =
                (p', plat_log plat ''DM: CRC mismatch, frame dropped'' w) \<and>
              frames_ok p' = 0 \<and> frames_crc_err p' = 1 \<and> frames_len_err p' = 0 \<and>
              state p' = PARSE_WAIT_START"
proof -
  have "crc_dropped dm_parser_init plat w
          (dm_parser_feed_all d dm_parser_init (flip_bit bytes i k) plat w)"
    unfolding assms(2)
    using assms(3-6) flip_single_bit_rejected [OF init_wait init_buffer assms(1)]
    unfolding assms(2) by blast
  then show ?thesis
    by (auto simp: crc_dropped_def parser_reset_def dm_parser_init_def)
qed

text \<open>
  The PING frame with sequence number 0x7B and bit 0 of its last byte inverted: one CRC
  error, no frame accepted, nothing delivered to the recording dispatcher.
\<close>

theorem single_bit_flip_rejected_witness:
  "frames_ok (fst (dm_parser_feed_all spy_dispatch dm_parser_init
      (flip_bit (dm_packet_frame 1 0x7B (Some []) 0) 6 0) None (boot_world []))) = 0 \<and>
   frames_crc_err (fst (dm_parser_feed_all spy_dispatch dm_parser_init
      (flip_bit (dm_packet_frame 1 0x7B (Some []) 0) 6 0) None (boot_world []))) = 1 \<and>
   snd (dm_parser_feed_all spy_dispatch dm_parser_init
      (flip_bit (dm_packet_frame 1 0x7B (Some []) 0) 6 0) None (boot_world [])) = boot_world []"
proof -
  have a: "length ([] :: u8 list) \<le> DM_MAX_PAYLOAD" by simp
  have b: "dm_packet_frame 1 0x7B (Some []) 0 =
      dm_packet_frame 1 0x7B (Some []) (of_nat (length ([] :: u8 list)))" by simp
  have c: "6 < length (dm_packet_frame 1 0x7B (Some []) 0)" by code_simp
  from single_bit_flip_rejected
    [where k = "0" and d = spy_dispatch and plat = None and w = "boot_world []", OF a b c]
  show ?thesis by (auto simp: plat_log_def)
qed

text \<open>
  Claim C2 as stated fails on the length byte. The PING frame
  \<^verbatim>\<open>AA 01 01 7B 00 11 E7\<close> with bit 0 of its length byte inverted announces one payload
  byte: the parser takes the first CRC byte as payload and the second as the high CRC byte
  and is left waiting in \<^verbatim>\<open>PARSE_CRC_LOW\<close>, with no CRC error counted.
\<close>

theorem length_bit_flip_counterexample:
  "state (fst (dm_parser_feed_all spy_dispatch dm_parser_init
      (flip_bit (dm_packet_frame 1 0x7B None 0) 4 0) None (boot_world []))) = PARSE_CRC_LOW \<and>
   frames_crc_err (fst (dm_parser_feed_all spy_dispatch dm_parser_init
      (flip_bit (dm_packet_frame 1 0x7B None 0) 4 0) None (boot_world []))) = 0"
  by code_simp

section \<open>Framing round trip\<close>

text \<open>
  Claim C3. For a command, a sequence number and a payload of at most \<open>DM_MAX_PAYLOAD\<close>
  bytes, let \<open>bytes\<close> be the buffer that \<^verbatim>\<open>dm_packet_send\<close> hands to \<^verbatim>\<open>write_bytes\<close>.
  Feeding \<open>bytes\<close> one byte at a time to a freshly initialised parser calls the dispatcher
  exactly once, with a frame whose version is the protocol version, whose command, sequence
  number and payload length are the encoded ones and whose first \<open>payload_len\<close> payload
  bytes are the encoded payload; \<open>frames_ok\<close> is 1 afterwards.
\<close>

theorem framing_round_trip:
  assumes "length pl \<le> DM_MAX_PAYLOAD"
    and "hw (dm_packet_send cmd seq (Some pl) (of_nat (length pl)) (Some capture_platform) tx) =
           hw tx @ [bytes]"
  shows "let f = \<lparr>version = DM_PROTOCOL_VERSION, command = cmd, seq_id = seq,
                  payload_len = of_nat (length pl),
                  payload = pl @ replicate (DM_MAX_PAYLOAD - length pl) 0\<rparr>
         in dm_parser_feed_all d dm_parser_init bytes plat w =
              (parser_reset (dm_parser_init\<lparr>frame := f, frames_ok := 1\<rparr>), d f plat w) \<and>
            take (unat (payload_len f)) (payload f) = pl"
proof -
  have bytes: "bytes = dm_packet_frame cmd seq (Some pl) (of_nat (length pl))"
    using assms(2) by (simp add: capture_send)
  have buf: "drop (length pl) (payload (frame dm_parser_init)) =
      replicate (DM_MAX_PAYLOAD - length pl) 0"
    by (simp add: dm_parser_init_def parser_reset_def)
  have ok: "frames_ok dm_parser_init + 1 = 1"
    by (simp add: dm_parser_init_def parser_reset_def)
  show ?thesis
    unfolding bytes
    using feed_packet_frame [OF init_wait init_buffer assms(1), of d cmd seq plat w]
      unat_len_byte [OF assms(1)]
    by (simp add: Let_def buf ok)
qed

text \<open>
  The frame for command 1, sequence number 0x7B and payload \<^verbatim>\<open>01 02 03\<close>, fed to the
  parser with the recording dispatcher: exactly that frame is recorded.
\<close>

theorem framing_round_trip_witness:
  "dm_parser_feed_all spy_dispatch dm_parser_init
     [0xAA, 1, 1, 0x7B, 3, 1, 2, 3, 0x07, 0x9B] None (boot_world []) =
     (parser_reset (dm_parser_init\<lparr>frame := \<lparr>version = 1, command = 1, seq_id = 0x7B,
                  payload_len = 3, payload = [1, 2, 3] @ replicate 125 0\<rparr>, frames_ok := 1\<rparr>),
      boot_world [\<lparr>version = 1, command = 1, seq_id = 0x7B,
                  payload_len = 3, payload = [1, 2, 3] @ replicate 125 0\<rparr>])"
proof -
  have a: "length [1, 2, 3 :: u8] \<le> DM_MAX_PAYLOAD"
    by (simp add: DM_MAX_PAYLOAD_def)
  have b: "hw (dm_packet_send 1 0x7B (Some [1, 2, 3]) (of_nat (length [1, 2, 3 :: u8]))
                 (Some capture_platform) (boot_world [])) =
           hw (boot_world []) @ [[0xAA, 1, 1, 0x7B, 3, 1, 2, 3, 0x07, 0x9B]]"
    by code_simp
  show ?thesis
    using framing_round_trip [OF a b, of spy_dispatch None "boot_world []"]
    by (simp add: Let_def spy_dispatch_def boot_world_def DM_PROTOCOL_VERSION_def
        DM_MAX_PAYLOAD_def)
qed

section \<open>No write outside the payload buffer\<close>

text \<open>
  Claim C4. After any byte stream, of any length and content, fed to a parser initialised
  with \<^verbatim>\<open>dm_parser_init\<close> (whatever the dispatcher and the platform do), the payload array
  still has \<open>DM_MAX_PAYLOAD\<close> elements, and whenever the parser is in \<^verbatim>\<open>PARSE_PAYLOAD\<close>, the
  only state in which the next byte is written to the array, at index \<open>payload_index\<close>,
  that index is strictly below \<open>DM_MAX_PAYLOAD\<close>:
  \<open>payload_index < payload_len \<le> DM_MAX_PAYLOAD\<close>.
\<close>

theorem payload_cursor_in_bounds:
  "let p = fst (dm_parser_feed_all d dm_parser_init bytes plat w)
   in length (payload (frame p)) = DM_MAX_PAYLOAD \<and>
      (state p = PARSE_PAYLOAD \<longrightarrow>
         unat (payload_index p) < DM_MAX_PAYLOAD \<and>
         unat (payload_index p) < unat (payload_len (frame p)) \<and>
         unat (payload_len (frame p)) \<le> DM_MAX_PAYLOAD)"
  using parser_inv_feed_all [OF parser_inv_init, of d bytes plat w]
  by (auto simp: parser_inv_def Let_def)

text \<open>A stream that stops inside a payload of five bytes, after the first of them.\<close>

theorem payload_cursor_in_bounds_witness:
  "state (fst (dm_parser_feed_all spy_dispatch dm_parser_init [0xAA, 1, 1, 0, 5, 7] None
     (boot_world []))) = PARSE_PAYLOAD \<and>
   unat (payload_index (fst (dm_parser_feed_all spy_dispatch dm_parser_init [0xAA, 1, 1, 0, 5, 7]
     None (boot_world [])))) < DM_MAX_PAYLOAD"
proof -
  have "state (fst (dm_parser_feed_all spy_dispatch dm_parser_init [0xAA, 1, 1, 0, 5, 7] None
     (boot_world []))) = PARSE_PAYLOAD"
    by code_simp
  then show ?thesis
    using payload_cursor_in_bounds [of spy_dispatch "[0xAA, 1, 1, 0, 5, 7]" None "boot_world []"]
    by (simp add: Let_def)
qed

section \<open>Length overflow\<close>

text \<open>
  Claim C6. If a parser in the \<^verbatim>\<open>PARSE_LENGTH\<close> state receives a length byte strictly
  greater than \<open>DM_MAX_PAYLOAD\<close>, then \<open>frames_len_err\<close> is incremented by one, the parser
  returns to \<^verbatim>\<open>PARSE_WAIT_START\<close>, \<open>frames_ok\<close> is unchanged and the dispatcher is not
  called (the world only receives the log message). A frame built by the encoder and fed
  immediately afterwards is parsed: the dispatcher is called once with it and \<open>frames_ok\<close>
  is incremented.
\<close>

theorem length_overflow_resync:
  assumes "state p = PARSE_LENGTH"
    and "unat b > DM_MAX_PAYLOAD"
    and "length (payload (frame p)) = DM_MAX_PAYLOAD"
    and "length pl \<le> DM_MAX_PAYLOAD"
  shows "let p1 = parser_reset (p\<lparr>frames_len_err := frames_len_err p + 1\<rparr>);
             f = \<lparr>version = DM_PROTOCOL_VERSION, command = cmd, seq_id = seq,
                  payload_len = of_nat (length pl),
                  payload = pl @ drop (length pl) (payload (frame p))\<rparr>
         in dm_parser_feed d p b plat w =
              (p1, plat_log plat ''DM: frame length overflow, resyncing'' w) \<and>
            state p1 = PARSE_WAIT_START \<and>
            frames_len_err p1 = frames_len_err p + 1 \<and>
            frames_ok p1 = frames_ok p \<and>
            dm_parser_feed_all d p1 (dm_packet_frame cmd seq (Some pl) (of_nat (length pl))) plat w' =
              (parser_reset (p1\<lparr>frame := f, frames_ok := frames_ok p + 1\<rparr>), d f plat w')"
proof -
  let ?p1 = "parser_reset (p\<lparr>frames_len_err := frames_len_err p + 1\<rparr>)"
  have step: "dm_parser_feed d p b plat w =
      (?p1, plat_log plat ''DM: frame length overflow, resyncing'' w)"
    using assms(1,2) by (simp add: dm_parser_feed_def)
  have p1: "state ?p1 = PARSE_WAIT_START" "length (payload (frame ?p1)) = DM_MAX_PAYLOAD"
    using assms(3) by (simp_all add: parser_reset_def)
  show ?thesis
    using step feed_packet_frame [OF p1 assms(4), of d cmd seq plat w']
    by (simp add: Let_def parser_reset_def)
qed

text \<open>
  The header \<^verbatim>\<open>AA 01 20 00\<close> followed by the length byte 0xFF: one length error; the PING
  frame fed next is accepted.
\<close>

theorem length_overflow_resync_witness:
  "frames_len_err (fst (dm_parser_feed spy_dispatch
       (fst (dm_parser_feed_all spy_dispatch dm_parser_init [0xAA, 1, 0x20, 0] None (boot_world [])))
       0xFF None (boot_world []))) = 1 \<and>
   frames_ok (fst (dm_parser_feed_all spy_dispatch
       (fst (dm_parser_feed spy_dispatch
          (fst (dm_parser_feed_all spy_dispatch dm_parser_init [0xAA, 1, 0x20, 0] None (boot_world [])))
          0xFF None (boot_world [])))
       (dm_packet_frame 1 0x7B (Some []) 0) None (boot_world []))) = 1"
proof -
  let ?P = "fst (dm_parser_feed_all spy_dispatch dm_parser_init [0xAA, 1, 0x20, 0] None
    (boot_world []))"
  have a: "state ?P = PARSE_LENGTH" by code_simp
  have b: "unat (0xFF :: u8) > DM_MAX_PAYLOAD" by (simp add: DM_MAX_PAYLOAD_def)
  have c: "length (payload (frame ?P)) = DM_MAX_PAYLOAD" by code_simp
  have e: "length ([] :: u8 list) \<le> DM_MAX_PAYLOAD" by simp
  have z: "frames_len_err ?P = 0" "frames_ok ?P = 0" by code_simp+
  show ?thesis
    using length_overflow_resync
      [where d = spy_dispatch and plat = None and w = "boot_world []" and cmd = "1"
         and seq = "0x7B" and w' = "boot_world []", OF a b c e] z
    by (simp add: Let_def parser_reset_def)
qed

section \<open>SHOW\_PAGE: acknowledgement before the event\<close>

text \<open>
  Claim C7. When the binder's SHOW\_PAGE handler is called with at least one payload byte,
  the page-show operation succeeds for the page named by the first payload byte, and the
  platform has a \<^verbatim>\<open>write_bytes\<close> function, then \<^verbatim>\<open>write_bytes\<close> is called exactly twice:
  first with the complete seven-byte EVT\_ACK frame that echoes the request's sequence
  number, then with the complete eight-byte EVT\_PAGE\_CHANGED frame for that page, numbered
  with the event counter. Every byte of the acknowledgement is written before any byte of
  the event.
\<close>

theorem show_page_ack_before_event:
  assumes "1 \<le> len"
    and "unat len \<le> length p"
    and "fst (ui_pages_show (p ! 0) w)"
    and "plat = Some pl"
    and "write_bytes pl = Some wb"
  shows "hw (dm_handle_show_page seq p len plat w) =
           wb (dm_packet_frame EVT_PAGE_CHANGED (s_seq_counter w) (Some [p ! 0]) 1)
             (wb (dm_packet_frame EVT_ACK seq None 0) (hw w)) \<and>
         take 5 (dm_packet_frame EVT_ACK seq None 0) =
           [DM_START_BYTE, DM_PROTOCOL_VERSION, EVT_ACK, seq, 0] \<and>
         length (dm_packet_frame EVT_ACK seq None 0) = 7 \<and>
         take 6 (dm_packet_frame EVT_PAGE_CHANGED (s_seq_counter w) (Some [p ! 0]) 1) =
           [DM_START_BYTE, DM_PROTOCOL_VERSION, EVT_PAGE_CHANGED, s_seq_counter w, 1, p ! 0] \<and>
         length (dm_packet_frame EVT_PAGE_CHANGED (s_seq_counter w) (Some [p ! 0]) 1) = 8"
proof -
  have len: "\<not> len < 1" using assms(1) by (rule leD)
  have shown: "ui_pages_show (p ! 0) w =
      (True, w\<lparr>lv_scr_act := Some (p ! 0), s_current_page := p ! 0\<rparr>)"
    using assms(3) by (simp add: ui_pages_show_def split: if_splits)
  have "hw (dm_handle_show_page seq p len plat w) =
           wb (dm_packet_frame EVT_PAGE_CHANGED (s_seq_counter w) (Some [p ! 0]) 1)
             (wb (dm_packet_frame EVT_ACK seq None 0) (hw w))"
    using len shown assms(4,5)
    by (simp add: dm_handle_show_page_def dm_packet_send_page_changed_def
        dm_packet_send_ack_def dm_packet_send_def Let_def)
  moreover have "take 5 (dm_packet_frame EVT_ACK seq None 0) =
           [DM_START_BYTE, DM_PROTOCOL_VERSION, EVT_ACK, seq, 0] \<and>
         length (dm_packet_frame EVT_ACK seq None 0) = 7"
    by (simp add: dm_packet_frame_def Let_def DM_MAX_PAYLOAD_def)
  moreover have "take 6 (dm_packet_frame EVT_PAGE_CHANGED (s_seq_counter w) (Some [p ! 0]) 1) =
           [DM_START_BYTE, DM_PROTOCOL_VERSION, EVT_PAGE_CHANGED, s_seq_counter w, 1, p ! 0] \<and>
         length (dm_packet_frame EVT_PAGE_CHANGED (s_seq_counter w) (Some [p ! 0]) 1) = 8"
    by (simp add: dm_packet_frame_def Let_def DM_MAX_PAYLOAD_def)
  ultimately show ?thesis by simp
qed

text \<open>
  SHOW\_PAGE for page 0 with sequence number 0x42, two pages registered, on the capturing
  platform: the transmitted buffers are the acknowledgement, then the event.
\<close>

theorem show_page_ack_before_event_witness:
  "hw (dm_handle_show_page 0x42 (0 # replicate 127 0) 1 (Some capture_platform)
         ((boot_world [])\<lparr>s_page_count := 2\<rparr>)) =
     [[0xAA, 0x01, 0xF0, 0x42, 0x00, 0x7A, 0x88],
      [0xAA, 0x01, 0x82, 0x00, 0x01, 0x00, 0xB8, 0x3C]]"
proof -
  let ?w = "(boot_world ([] :: u8 list list))\<lparr>s_page_count := 2\<rparr>"
  let ?p = "0 # replicate 127 (0 :: u8)"
  have a: "(1 :: u8) \<le> 1" by simp
  have b: "unat (1 :: u8) \<le> length ?p" by simp
  have c: "fst (ui_pages_show (?p ! 0) ?w)" by (simp add: ui_pages_show_def boot_world_def)
  have d: "Some capture_platform = Some capture_platform" by simp
  have e: "write_bytes capture_platform = Some capture_write" by (simp add: capture_platform_def)
  have f: "dm_packet_frame EVT_ACK 0x42 None 0 = [0xAA, 0x01, 0xF0, 0x42, 0x00, 0x7A, 0x88]"
    by code_simp
  have g: "dm_packet_frame EVT_PAGE_CHANGED 0 (Some [0]) 1 =
      [0xAA, 0x01, 0x82, 0x00, 0x01, 0x00, 0xB8, 0x3C]"
    by code_simp
  show ?thesis
    using show_page_ack_before_event [where seq = "0x42", OF a b c d e] f g
    by (simp add: capture_write_def boot_world_def)
qed

section \<open>Event sequence numbers\<close>

text \<open>
  Claim C8. Over any sequence of N calls of the event wrappers (button pressed, slider
  changed, page changed, touch event) on the capturing platform, N frames are transmitted
  and their sequence-number bytes are \<open>s, s + 1, \<dots>, s + N - 1\<close> modulo 256, where \<open>s\<close> is
  the event counter before the first call. On any platform, each call increments the event
  counter by exactly one (modulo 256), so N calls add N.
\<close>

theorem event_seq_consecutive:
  "(\<exists>frames. hw (send_events es (Some capture_platform) w) = hw w @ frames \<and>
     length frames = length es \<and>
     map (\<lambda>f. unat (f ! 3)) frames =
       map (\<lambda>i. (unat (s_seq_counter w) + i) mod 256) [0..<length es]) \<and>
   s_seq_counter (send_events es plat' w') = s_seq_counter w' + of_nat (length es) \<and>
   s_seq_counter (send_event e plat' w') = s_seq_counter w' + 1"
  using send_events_capture [of es w] send_events_counter [of es plat' w']
    send_event_counter [of e plat' w']
  by blast

text \<open>
  Three events sent when the counter is 0xFF: their sequence numbers are 255, 0 and 1, and
  the counter ends at 2.
\<close>

theorem event_seq_consecutive_witness:
  "map (\<lambda>f. unat (f ! 3))
     (hw (send_events [Button_pressed 2, Slider_changed 4 50, Touch_event 10 20]
            (Some capture_platform) ((boot_world [])\<lparr>s_seq_counter := 0xFF\<rparr>))) =
     [255, 0, 1] \<and>
   s_seq_counter (send_events [Button_pressed 2, Slider_changed 4 50, Touch_event 10 20]
            (Some capture_platform) ((boot_world [])\<lparr>s_seq_counter := 0xFF\<rparr>)) = 2"
proof -
  have idx: "[0..<length [Button_pressed 2, Slider_changed 4 50, Touch_event 10 20]] = [0, 1, 2]"
    by (simp add: upt_rec)
  show ?thesis
    using event_seq_consecutive
      [of "[Button_pressed 2, Slider_changed 4 50, Touch_event 10 20]"
          "(boot_world [])\<lparr>s_seq_counter := 0xFF\<rparr>"
          "Some capture_platform" "(boot_world [])\<lparr>s_seq_counter := 0xFF\<rparr>"]
    unfolding idx
    by (auto simp: boot_world_def)
qed

section \<open>The encoder\<close>

text \<open>
  Claim C9. For a call of \<^verbatim>\<open>dm_packet_send\<close> with a platform that has a \<^verbatim>\<open>write_bytes\<close>
  function, let \<open>n\<close> be the payload length clamped to \<open>DM_MAX_PAYLOAD\<close> and \<open>body\<close> the
  first \<open>n\<close> bytes at the payload pointer (no bytes for a null pointer). Then
  \<^verbatim>\<open>write_bytes\<close> is called exactly once, with the buffer 0xAA, version, command, sequence
  number, \<open>n\<close>, \<open>body\<close>, CRC high byte, CRC low byte, where the CRC is the CRC16-CCITT of
  version, command, sequence number, \<open>n\<close> and \<open>body\<close>, high byte first; the buffer is at
  most \<open>DM_MAX_FRAME_SIZE\<close> bytes long.
\<close>

theorem encoder_frame_layout:
  assumes "plat = Some pl"
    and "write_bytes pl = Some wb"
    and "n = min (unat pay_len) DM_MAX_PAYLOAD"
    and "pay = Some bytes \<longrightarrow> n \<le> length bytes"
    and "body = (case pay of None \<Rightarrow> [] | Some bytes \<Rightarrow> take n bytes)"
    and "crc = crc16_ccitt ([DM_PROTOCOL_VERSION, cmd, seq, of_nat n] @ body)"
  shows "dm_packet_send cmd seq pay pay_len plat w =
           w\<lparr>hw := wb ([DM_START_BYTE, DM_PROTOCOL_VERSION, cmd, seq, of_nat n] @ body @
                        [ucast (drop_bit 8 crc), ucast (crc AND 0xFF)]) (hw w)\<rparr> \<and>
         unat (ucast (drop_bit 8 crc) :: u8) * 256 + unat (ucast (crc AND 0xFF) :: u8) = unat crc \<and>
         length ([DM_START_BYTE, DM_PROTOCOL_VERSION, cmd, seq, of_nat n] @ body @
                        [ucast (drop_bit 8 crc) :: u8, ucast (crc AND 0xFF)]) \<le> DM_MAX_FRAME_SIZE"
proof -
  let ?n = "if unat pay_len > DM_MAX_PAYLOAD then of_nat DM_MAX_PAYLOAD else pay_len :: u8"
  have n: "?n = of_nat n" "unat ?n = n"
    using assms(3) by (auto simp: DM_MAX_PAYLOAD_def min_def)
  have pos: "?n > 0 \<longleftrightarrow> n \<noteq> 0"
    using n(2) by (simp add: word_greater_zero_iff unat_gt_0 [symmetric])
  have frame: "dm_packet_frame cmd seq pay pay_len =
      [DM_START_BYTE, DM_PROTOCOL_VERSION, cmd, seq, of_nat n] @ body @
        [ucast (drop_bit 8 crc), ucast (crc AND 0xFF)]"
  proof (cases pay)
    case None
    then show ?thesis
      using n(1) assms(5,6) by (simp add: dm_packet_frame_def Let_def)
  next
    case (Some bytes)
    show ?thesis
    proof (cases "n = 0")
      case True
      then show ?thesis
        using Some n pos assms(5,6) by (simp add: dm_packet_frame_def Let_def)
    next
      case False
      then show ?thesis
        using Some n pos assms(5,6) by (simp add: dm_packet_frame_def Let_def)
    qed
  qed
  have "length body \<le> DM_MAX_PAYLOAD"
    using assms(3,5) by (auto split: option.splits)
  then have "length ([DM_START_BYTE, DM_PROTOCOL_VERSION, cmd, seq, of_nat n] @ body @
                        [ucast (drop_bit 8 crc) :: u8, ucast (crc AND 0xFF)]) \<le> DM_MAX_FRAME_SIZE"
    by (simp add: DM_MAX_FRAME_SIZE_def DM_HEADER_SIZE_def DM_CRC_SIZE_def)
  then show ?thesis
    using frame assms(1,2) crc_big_endian [of crc] by (simp add: dm_packet_send_def)
qed

text \<open>
  An acknowledgement with sequence number 0x7B and the first two bytes of a three-byte
  buffer as payload, on the capturing platform: one buffer is transmitted.
\<close>

theorem encoder_frame_layout_witness:
  "dm_packet_send 0xF0 0x7B (Some [9, 8, 7]) 2 (Some capture_platform) (boot_world []) =
     boot_world [[0xAA, 0x01, 0xF0, 0x7B, 0x02, 0x09, 0x08, 0x7D, 0x7C]]"
proof -
  have a: "Some capture_platform = Some capture_platform" by simp
  have b: "write_bytes capture_platform = Some capture_write" by (simp add: capture_platform_def)
  have c: "(2 :: nat) = min (unat (2 :: u8)) DM_MAX_PAYLOAD" by (simp add: DM_MAX_PAYLOAD_def)
  have d: "Some [9, 8, 7 :: u8] = Some [9, 8, 7] \<longrightarrow> 2 \<le> length [9, 8, 7 :: u8]" by simp
  have e: "[9, 8 :: u8] = (case Some [9, 8, 7] of None \<Rightarrow> [] | Some bytes \<Rightarrow> take 2 bytes)"
    by simp
  have f: "(0x7D7C :: u16) = crc16_ccitt ([DM_PROTOCOL_VERSION, 0xF0, 0x7B, of_nat 2] @ [9, 8])"
    by code_simp
  show ?thesis
    using encoder_frame_layout [where w = "boot_world []", OF a b c d e f]
    by (simp add: capture_write_def boot_world_def DM_START_BYTE_def DM_PROTOCOL_VERSION_def)
qed

text \<open>
  Claim C10. Called with a null platform pointer, or with a platform whose
  \<^verbatim>\<open>write_bytes\<close> slot is null, \<^verbatim>\<open>dm_packet_send\<close> returns without transmitting anything
  and without changing any state.
\<close>

theorem send_without_writer_is_noop:
  "plat = None \<or> (\<exists>pl. plat = Some pl \<and> write_bytes pl = None) \<Longrightarrow>
   dm_packet_send cmd seq pay pay_len plat w = w"
  by (auto simp: dm_packet_send_def)

text \<open>Both cases, in a world where one buffer has already been transmitted.\<close>

theorem send_without_writer_is_noop_witness:
  "dm_packet_send 0xF0 7 (Some [1, 2]) 2 None (boot_world [[0 :: u8]]) = boot_world [[0]] \<and>
   dm_packet_send 0xF0 7 (Some [1, 2]) 2
     (Some \<lparr>write_bytes = None, millis = Some capture_millis, log = Some capture_log\<rparr>)
     (boot_world [[0]]) = boot_world [[0]]"
  using send_without_writer_is_noop [where plat = None and w = "boot_world [[0 :: u8]]"]
    send_without_writer_is_noop
      [where plat = "Some \<lparr>write_bytes = None, millis = Some capture_millis,
                            log = Some capture_log\<rparr>"
         and w = "boot_world [[0 :: u8]]"]
  by simp

end
